theory Spec2Isabelle
  imports
    Main
    "HOL-Library.Word"
    "HOL-Library.Product_Lexorder"
    "HOL-Library.Option_ord"
begin

section \<open>Data model of the blog (src/convex/schema.ts)\<close>

text \<open>
  A JavaScript string is a sequence of UTF-16 code units. Document ids are opaque
  handles issued by the document store; they are modelled as the value of a counter
  that the store advances at every insertion, so an id is never issued twice.
  Timestamps (\<open>Date.now()\<close>, \<open>_creationTime\<close>) are integers of milliseconds.
\<close>

type_synonym code_unit = "16 word"
type_synonym js_string = "code_unit list"
type_synonym post_id = nat

text \<open>The fields of the \<open>posts\<close> table, in the order of the schema.\<close>

record post_fields =
  title :: js_string
  slug :: js_string
  content :: js_string
  excerpt :: js_string
  published :: bool
  publishedAt :: "int option"
  createdAt :: int
  updatedAt :: int
  authorId :: "js_string option"
  tags :: "js_string list option"

text \<open>A stored document carries the two system fields \<open>_id\<close> and \<open>_creationTime\<close>.\<close>

record post = post_fields +
  doc_id :: post_id
  doc_creationTime :: int

text \<open>
  The state of the store: the documents of the \<open>posts\<close> table in insertion order and
  the next id to issue.
\<close>

record db =
  posts :: "post list"
  next_id :: post_id

definition empty_db :: db where
  "empty_db = \<lparr>posts = [], next_id = 0\<rparr>"

text \<open>
  An exception is a value: \<open>Error msg\<close> is \<open>new Error(msg)\<close> thrown by a handler,
  \<open>ServiceError msg\<close> is an exception raised by the document store itself.
\<close>

datatype error = Error string | ServiceError string

section \<open>The document store as the handlers use it\<close>

definition db_get :: "db \<Rightarrow> post_id \<Rightarrow> post option" where
  "db_get d i = find (\<lambda>p. doc_id p = i) (posts d)"

definition stamp :: "post_id \<Rightarrow> int \<Rightarrow> post_fields \<Rightarrow> post" where
  "stamp i ct f =
     \<lparr>title = title f, slug = slug f, content = content f, excerpt = excerpt f,
      published = published f, publishedAt = publishedAt f, createdAt = createdAt f,
      updatedAt = updatedAt f, authorId = authorId f, tags = tags f,
      doc_id = i, doc_creationTime = ct\<rparr>"

text \<open>\<open>ctx.db.insert\<close>: the store issues the id and the creation time \<open>ct\<close>.\<close>

definition db_insert :: "int \<Rightarrow> post_fields \<Rightarrow> db \<Rightarrow> post_id \<times> db" where
  "db_insert ct f d =
     (next_id d,
      \<lparr>posts = posts d @ [stamp (next_id d) ct f], next_id = Suc (next_id d)\<rparr>)"

text \<open>\<open>ctx.db.patch\<close>: the document with the given id is replaced by its patched version.\<close>

definition db_patch :: "post_id \<Rightarrow> (post \<Rightarrow> post) \<Rightarrow> db \<Rightarrow> db" where
  "db_patch i f d = d\<lparr>posts := map (\<lambda>p. if doc_id p = i then f p else p) (posts d)\<rparr>"

text \<open>\<open>ctx.db.delete\<close>: the document with the given id leaves the table.\<close>

definition db_delete :: "post_id \<Rightarrow> db \<Rightarrow> db" where
  "db_delete i d = d\<lparr>posts := filter (\<lambda>p. doc_id p \<noteq> i) (posts d)\<rparr>"

text \<open>
  Index scans. An index orders the documents by its fields, then by \<open>_creationTime\<close>,
  then by \<open>_id\<close>; an absent optional field sorts before every number. \<open>order('desc')\<close>
  reads the index backwards.
\<close>

definition by_slug :: "db \<Rightarrow> js_string \<Rightarrow> post list" where
  "by_slug d s =
     sort_key (\<lambda>p. (doc_creationTime p, doc_id p)) (filter (\<lambda>p. slug p = s) (posts d))"

definition by_published_desc :: "db \<Rightarrow> post list" where
  "by_published_desc d =
     rev (sort_key (\<lambda>p. (publishedAt p, doc_creationTime p, doc_id p))
            (filter (\<lambda>p. published p) (posts d)))"

definition by_created_desc :: "db \<Rightarrow> post list" where
  "by_created_desc d =
     rev (sort_key (\<lambda>p. (createdAt p, doc_creationTime p, doc_id p)) (posts d))"

definition first :: "'a list \<Rightarrow> 'a option" where
  "first xs = (case xs of [] \<Rightarrow> None | x # _ \<Rightarrow> Some x)"

section \<open>Queries and mutations of the posts module\<close>

text \<open>
  \<open>slugExists(ctx, slug, excludeId?)\<close>. An id is a non-empty string, so the test
  \<open>excludeId &&\<close> holds exactly when the argument is given.
\<close>

definition slugExists :: "db \<Rightarrow> js_string \<Rightarrow> post_id option \<Rightarrow> bool" where
  "slugExists d s excludeId =
     (case first (by_slug d s) of
        None \<Rightarrow> False
      | Some existing \<Rightarrow>
          (case excludeId of
             None \<Rightarrow> True
           | Some x \<Rightarrow> if doc_id existing = x then False else True))"

text \<open>The projection \<open>listPublished\<close> returns for each post (no \<open>content\<close>).\<close>

record listing =
  l_id :: post_id
  l_creationTime :: int
  l_title :: js_string
  l_slug :: js_string
  l_excerpt :: js_string
  l_publishedAt :: "int option"
  l_createdAt :: int
  l_tags :: "js_string list option"

definition to_listing :: "post \<Rightarrow> listing" where
  "to_listing p =
     \<lparr>l_id = doc_id p, l_creationTime = doc_creationTime p, l_title = title p,
      l_slug = slug p, l_excerpt = excerpt p, l_publishedAt = publishedAt p,
      l_createdAt = createdAt p, l_tags = tags p\<rparr>"

text \<open>
  \<open>listPublished\<close>: \<open>limit\<close> defaults to 20; \<open>take\<close> of the store refuses a count
  that is not a non-negative integer.
\<close>

definition listPublished :: "db \<Rightarrow> int option \<Rightarrow> error + listing list" where
  "listPublished d limit =
     (let n = (case limit of None \<Rightarrow> 20 | Some l \<Rightarrow> l) in
      if n < 0 then Inl (ServiceError ''take: not a non-negative integer'')
      else Inr (map to_listing (take (nat n) (by_published_desc d))))"

text \<open>\<open>getBySlug\<close>: only a published post is returned.\<close>

definition getBySlug :: "db \<Rightarrow> js_string \<Rightarrow> post option" where
  "getBySlug d s =
     (case first (by_slug d s) of
        None \<Rightarrow> None
      | Some p \<Rightarrow> if \<not> published p then None else Some p)"

text \<open>
  \<open>listAll\<close> pages through the \<open>by_created\<close> index backwards. A cursor marks the index
  key of the last document already delivered; \<open>None\<close> starts at the beginning.
\<close>

type_synonym cursor = "int \<times> int \<times> post_id"

record pagination_opts =
  numItems :: nat
  cursor :: "cursor option"

record pagination_result =
  page :: "post list"
  isDone :: bool
  continueCursor :: "cursor option"

definition created_key :: "post \<Rightarrow> cursor" where
  "created_key p = (createdAt p, doc_creationTime p, doc_id p)"

definition paginate :: "post list \<Rightarrow> pagination_opts \<Rightarrow> pagination_result" where
  "paginate xs opts =
     (let rest = (case cursor opts of
                    None \<Rightarrow> xs
                  | Some c \<Rightarrow> filter (\<lambda>p. created_key p < c) xs);
          pg = take (numItems opts) rest
      in \<lparr>page = pg,
          isDone = (length rest \<le> numItems opts),
          continueCursor = (if pg = [] then cursor opts else Some (created_key (last pg)))\<rparr>)"

definition listAll :: "db \<Rightarrow> pagination_opts \<Rightarrow> pagination_result" where
  "listAll d opts = paginate (by_created_desc d) opts"

definition getById :: "db \<Rightarrow> post_id \<Rightarrow> post option" where
  "getById d i = db_get d i"

text \<open>The arguments of \<open>create\<close> and \<open>update\<close>; an optional argument that is left out is \<open>None\<close>.\<close>

record create_args =
  c_title :: js_string
  c_slug :: js_string
  c_content :: js_string
  c_excerpt :: js_string
  c_published :: bool
  c_tags :: "js_string list option"

record update_args =
  u_id :: post_id
  u_title :: "js_string option"
  u_slug :: "js_string option"
  u_content :: "js_string option"
  u_excerpt :: "js_string option"
  u_published :: "bool option"
  u_tags :: "js_string list option"

text \<open>
  A mutation returns what the handler returns or throws, and the state of the store
  afterwards. \<open>create ct now\<close>: \<open>now\<close> is the handler's reading of \<open>Date.now()\<close>, \<open>ct\<close>
  the creation time the store gives the document.
\<close>

definition create :: "int \<Rightarrow> int \<Rightarrow> create_args \<Rightarrow> db \<Rightarrow> (error + post_id) \<times> db" where
  "create ct now a d =
     (if slugExists d (c_slug a) None
      then (Inl (Error ''A post with this slug already exists''), d)
      else
        (case db_insert ct
                \<lparr>title = c_title a, slug = c_slug a, content = c_content a,
                 excerpt = c_excerpt a, published = c_published a,
                 publishedAt = (if c_published a then Some now else None),
                 createdAt = now, updatedAt = now, authorId = None,
                 tags = Some (case c_tags a of None \<Rightarrow> [] | Some ts \<Rightarrow> ts)\<rparr> d of
           (postId, d') \<Rightarrow> (Inr postId, d')))"

text \<open>
  \<open>update\<close>: \<open>t_upd\<close> and \<open>t_pub\<close> are the handler's two readings of \<open>Date.now()\<close>.
  The test \<open>updates.slug &&\<close> is JavaScript truthiness: it fails for an argument left
  out and for the empty string. The patch \<open>{...updates, updatedAt}\<close> writes every
  argument that was given.
\<close>

definition patchData :: "int \<Rightarrow> int \<Rightarrow> update_args \<Rightarrow> post \<Rightarrow> post \<Rightarrow> post" where
  "patchData t_upd t_pub a existingPost p =
     (let p1 = p\<lparr>title := (case u_title a of None \<Rightarrow> title p | Some x \<Rightarrow> x),
                 slug := (case u_slug a of None \<Rightarrow> slug p | Some x \<Rightarrow> x),
                 content := (case u_content a of None \<Rightarrow> content p | Some x \<Rightarrow> x),
                 excerpt := (case u_excerpt a of None \<Rightarrow> excerpt p | Some x \<Rightarrow> x),
                 published := (case u_published a of None \<Rightarrow> published p | Some x \<Rightarrow> x),
                 tags := (case u_tags a of None \<Rightarrow> tags p | Some x \<Rightarrow> Some x),
                 updatedAt := t_upd\<rparr>
      in if u_published a = Some True \<and> \<not> published existingPost
         then p1\<lparr>publishedAt := Some t_pub\<rparr>
         else p1)"

definition update :: "int \<Rightarrow> int \<Rightarrow> update_args \<Rightarrow> db \<Rightarrow> (error + post_id) \<times> db" where
  "update t_upd t_pub a d =
     (case db_get d (u_id a) of
        None \<Rightarrow> (Inl (Error ''Post not found''), d)
      | Some existingPost \<Rightarrow>
          if (case u_slug a of
                None \<Rightarrow> False
              | Some s \<Rightarrow> s \<noteq> [] \<and> s \<noteq> slug existingPost \<and> slugExists d s (Some (u_id a)))
          then (Inl (Error ''A post with this slug already exists''), d)
          else (Inr (u_id a), db_patch (u_id a) (patchData t_upd t_pub a existingPost) d))"

text \<open>\<open>remove\<close>: the store refuses to delete a document that does not exist.\<close>

definition remove :: "post_id \<Rightarrow> db \<Rightarrow> (error + unit) \<times> db" where
  "remove i d =
     (case db_get d i of
        None \<Rightarrow> (Inl (ServiceError ''Delete on nonexistent document ID''), d)
      | Some _ \<Rightarrow> (Inr (), db_delete i d))"

text \<open>
  A call of one of the three mutations, with the clock readings it sees. Calls run one
  after the other; a call that throws leaves the store as it found it.
\<close>

datatype call =
    Create int int create_args
  | Update int int update_args
  | Remove post_id

fun exec :: "call \<Rightarrow> db \<Rightarrow> db" where
  "exec (Create ct now a) d = snd (create ct now a d)"
| "exec (Update t_upd t_pub a) d = snd (update t_upd t_pub a d)"
| "exec (Remove i) d = snd (remove i d)"

fun run :: "call list \<Rightarrow> db \<Rightarrow> db" where
  "run [] d = d"
| "run (c # cs) d = run cs (exec c d)"

section \<open>The slug generator of the admin editors\<close>

text \<open>
  \<open>slugify\<close> is the same function in \<open>routes/admin/new/+page.svelte\<close> and in
  \<open>routes/admin/edit/[id]/+page.svelte\<close>:
  \<^verbatim>\<open>text.toLowerCase().trim().replace(/[^\w\s-]/g, '').replace(/[\s_-]+/g, '-').replace(/^-+|-+$/g, '')\<close>
  The regular expressions carry no \<open>u\<close> flag, so they read the string code unit by
  code unit; \<open>\w\<close> is \<open>[A-Za-z0-9_]\<close>, and \<open>\s\<close> is the white space and line
  terminators of ECMAScript, which are also what \<open>trim\<close> strips.
\<close>

definition hyphen :: code_unit where
  "hyphen = 0x2D"

definition is_upper :: "code_unit \<Rightarrow> bool" where
  "is_upper c \<longleftrightarrow> 0x41 \<le> c \<and> c \<le> 0x5A"

definition is_lower :: "code_unit \<Rightarrow> bool" where
  "is_lower c \<longleftrightarrow> 0x61 \<le> c \<and> c \<le> 0x7A"

definition is_digit :: "code_unit \<Rightarrow> bool" where
  "is_digit c \<longleftrightarrow> 0x30 \<le> c \<and> c \<le> 0x39"

definition is_word :: "code_unit \<Rightarrow> bool" where
  "is_word c \<longleftrightarrow> is_upper c \<or> is_lower c \<or> is_digit c \<or> c = 0x5F"

definition is_space :: "code_unit \<Rightarrow> bool" where
  "is_space c \<longleftrightarrow>
     c = 0x09 \<or> c = 0x0A \<or> c = 0x0B \<or> c = 0x0C \<or> c = 0x0D \<or> c = 0x20 \<or>
     c = 0xA0 \<or> c = 0x1680 \<or> (0x2000 \<le> c \<and> c \<le> 0x200A) \<or> c = 0x2028 \<or>
     c = 0x2029 \<or> c = 0x202F \<or> c = 0x205F \<or> c = 0x3000 \<or> c = 0xFEFF"

text \<open>\<open>.trim()\<close>\<close>

definition trim :: "js_string \<Rightarrow> js_string" where
  "trim s = rev (dropWhile is_space (rev (dropWhile is_space s)))"

text \<open>\<open>.replace(/[^\w\s-]/g, '')\<close>\<close>

definition remove_other :: "js_string \<Rightarrow> js_string" where
  "remove_other s = filter (\<lambda>c. is_word c \<or> is_space c \<or> c = hyphen) s"

text \<open>\<open>.replace(/[\s_-]+/g, '-')\<close>: every maximal run of separators becomes one hyphen.\<close>

definition is_sep :: "code_unit \<Rightarrow> bool" where
  "is_sep c \<longleftrightarrow> is_space c \<or> c = 0x5F \<or> c = hyphen"

function collapse_seps :: "js_string \<Rightarrow> js_string" where
  "collapse_seps [] = []"
| "collapse_seps (c # cs) =
     (if is_sep c then hyphen # collapse_seps (dropWhile is_sep cs)
      else c # collapse_seps cs)"
  by pat_completeness auto
termination
  by (relation "measure length") (auto simp: less_Suc_eq_le length_dropWhile_le)

text \<open>\<open>.replace(/^-+|-+$/g, '')\<close>: the hyphens at the start and those at the end go.\<close>

definition strip_hyphens :: "js_string \<Rightarrow> js_string" where
  "strip_hyphens s =
     rev (dropWhile (\<lambda>c. c = hyphen) (rev (dropWhile (\<lambda>c. c = hyphen) s)))"

text \<open>
  \<open>String.prototype.toLowerCase\<close> is the Unicode lower-casing of the engine; it is a
  parameter of the model. The one fact about it that matters below is that its result
  holds none of the letters \<open>A\<close> to \<open>Z\<close>.
\<close>

definition slugify :: "(js_string \<Rightarrow> js_string) \<Rightarrow> js_string \<Rightarrow> js_string" where
  "slugify toLowerCase text =
     strip_hyphens (collapse_seps (remove_other (trim (toLowerCase text))))"

text \<open>Lower-casing restricted to ASCII, an instance of the parameter.\<close>

definition ascii_lower :: "js_string \<Rightarrow> js_string" where
  "ascii_lower s = map (\<lambda>c. if is_upper c then c + 0x20 else c) s"

text \<open>Two neighbouring code units that are not both hyphens.\<close>

definition no_hh :: "code_unit \<Rightarrow> code_unit \<Rightarrow> bool" where
  "no_hh a b \<longleftrightarrow> \<not> (a = hyphen \<and> b = hyphen)"

section \<open>Properties of states and of calls\<close>

text \<open>
  The ids of a well-formed store are pairwise different and were all issued by its
  counter.
\<close>

definition ids_wf :: "db \<Rightarrow> bool" where
  "ids_wf d \<longleftrightarrow>
     distinct (map doc_id (posts d)) \<and> list_all (\<lambda>p. doc_id p < next_id d) (posts d)"

text \<open>No two posts of the table have the same slug.\<close>

definition slugs_unique :: "db \<Rightarrow> bool" where
  "slugs_unique d \<longleftrightarrow> distinct (map slug (posts d))"

text \<open>An \<open>update\<close> call whose \<open>slug\<close> argument is the empty string.\<close>

fun empty_slug_update :: "call \<Rightarrow> bool" where
  "empty_slug_update (Update t_upd t_pub a) = (u_slug a = Some [])"
| "empty_slug_update c = False"

text \<open>
  A call that neither unpublishes post \<open>i\<close> (\<open>update\<close> with \<open>published = false\<close>) nor
  removes it.
\<close>

fun keeps_published :: "post_id \<Rightarrow> call \<Rightarrow> bool" where
  "keeps_published i (Create ct now a) = True"
| "keeps_published i (Update t_upd t_pub a) = (\<not> (u_id a = i \<and> u_published a = Some False))"
| "keeps_published i (Remove j) = (j \<noteq> i)"

section \<open>Sample data\<close>

text \<open>The title \<open>" Hi,  _W--2!- "\<close>.\<close>

definition sample_title :: js_string where
  "sample_title =
     [0x20, 0x48, 0x69, 0x2C, 0x20, 0x20, 0x5F, 0x57, 0x2D, 0x2D, 0x32, 0x21, 0x2D, 0x20]"

text \<open>A published post with slug \<open>"a"\<close> and a draft with slug \<open>"b"\<close>.\<close>

definition post_a :: create_args where
  "post_a = \<lparr>c_title = [0x41], c_slug = [0x61], c_content = [], c_excerpt = [],
              c_published = True, c_tags = None\<rparr>"

definition post_b :: create_args where
  "post_b = \<lparr>c_title = [0x42], c_slug = [0x62], c_content = [], c_excerpt = [],
              c_published = False, c_tags = None\<rparr>"

definition one_post :: db where
  "one_post = run [Create 1 100 post_a] empty_db"

definition two_posts :: db where
  "two_posts = run [Create 1 100 post_a, Create 2 200 post_b] empty_db"

text \<open>An \<open>update\<close> call that gives only the id.\<close>

definition only_id :: "post_id \<Rightarrow> update_args" where
  "only_id i = \<lparr>u_id = i, u_title = None, u_slug = None, u_content = None,
                 u_excerpt = None, u_published = None, u_tags = None\<rparr>"

text \<open>\<open>update\<close> calls that give the id and one more argument.\<close>

definition set_slug :: "post_id \<Rightarrow> js_string \<Rightarrow> update_args" where
  "set_slug i s = (only_id i)\<lparr>u_slug := Some s\<rparr>"

definition set_published :: "post_id \<Rightarrow> bool \<Rightarrow> update_args" where
  "set_published i b = (only_id i)\<lparr>u_published := Some b\<rparr>"

lemmas eval_defs =
  create_def update_def remove_def slugExists_def by_slug_def first_def db_insert_def
  db_get_def db_patch_def db_delete_def patchData_def stamp_def empty_db_def
  post_a_def post_b_def one_post_def two_posts_def only_id_def set_slug_def
  set_published_def

section \<open>Facts about the store\<close>

lemma first_Some_mem: "first xs = Some x \<Longrightarrow> x \<in> set xs"
  by (cases xs) (simp_all add: first_def)

lemma set_by_slug: "set (by_slug d s) = {p \<in> set (posts d). slug p = s}"
  by (auto simp: by_slug_def)

lemma set_by_published_desc: "set (by_published_desc d) = {p \<in> set (posts d). published p}"
  by (auto simp: by_published_desc_def)

lemma set_by_created_desc: "set (by_created_desc d) = set (posts d)"
  by (simp add: by_created_desc_def)

lemma slugExists_None_iff: "slugExists d s None \<longleftrightarrow> (\<exists>p \<in> set (posts d). slug p = s)"
proof -
  have "slugExists d s None \<longleftrightarrow> by_slug d s \<noteq> []"
    by (cases "by_slug d s") (simp_all add: slugExists_def first_def)
  also have "\<dots> \<longleftrightarrow> set (by_slug d s) \<noteq> {}" by simp
  also have "\<dots> \<longleftrightarrow> (\<exists>p \<in> set (posts d). slug p = s)"
    unfolding set_by_slug by blast
  finally show ?thesis .
qed

lemma one_post_posts:
  "posts one_post =
     [\<lparr>title = [0x41], slug = [0x61], content = [], excerpt = [], published = True,
       publishedAt = Some 100, createdAt = 100, updatedAt = 100, authorId = None,
       tags = Some [], doc_id = 0, doc_creationTime = 1\<rparr>]"
  by (simp add: eval_defs)

section \<open>Creating a post under a slug that is taken\<close>

text \<open>
  C1. When the table already holds a post with slug \<open>s\<close>, \<open>create\<close> with slug \<open>s\<close>
  throws \<open>A post with this slug already exists\<close>, and the store is left as it was: no
  post is inserted.
\<close>

theorem create_duplicate_slug_rejected:
  assumes "\<exists>p \<in> set (posts d). slug p = c_slug a"
  shows "create ct now a d = (Inl (Error ''A post with this slug already exists''), d)"
  using assms by (simp add: create_def slugExists_None_iff)

theorem create_duplicate_slug_rejected_witness:
  "(\<exists>p \<in> set (posts one_post). slug p = c_slug post_a) \<and>
   create 2 200 post_a one_post =
     (Inl (Error ''A post with this slug already exists''), one_post)"
proof -
  have h: "\<exists>p \<in> set (posts one_post). slug p = c_slug post_a"
    by (simp add: one_post_posts post_a_def)
  show ?thesis using h create_duplicate_slug_rejected [OF h] by blast
qed

section \<open>Updating a post that does not exist\<close>

text \<open>
  C6. \<open>update\<close> with an id that names no post throws \<open>Post not found\<close>, and the store
  is left as it was: no field of any post changes.
\<close>

theorem update_missing_post:
  assumes "db_get d (u_id a) = None"
  shows "update t_upd t_pub a d = (Inl (Error ''Post not found''), d)"
  using assms by (simp add: update_def)

theorem update_missing_post_witness:
  "db_get one_post (u_id (only_id 7)) = None \<and>
   update 300 301 (only_id 7) one_post = (Inl (Error ''Post not found''), one_post)"
proof -
  have h: "db_get one_post (u_id (only_id 7)) = None"
    by (simp add: db_get_def one_post_posts only_id_def)
  show ?thesis using h update_missing_post [OF h] by blast
qed

section \<open>Listing the published posts\<close>

lemma two_posts_posts:
  "posts two_posts =
     [\<lparr>title = [0x41], slug = [0x61], content = [], excerpt = [], published = True,
       publishedAt = Some 100, createdAt = 100, updatedAt = 100, authorId = None,
       tags = Some [], doc_id = 0, doc_creationTime = 1\<rparr>,
      \<lparr>title = [0x42], slug = [0x62], content = [], excerpt = [], published = False,
       publishedAt = None, createdAt = 200, updatedAt = 200, authorId = None,
       tags = Some [], doc_id = 1, doc_creationTime = 2\<rparr>]"
  by (simp add: eval_defs)

lemma listPublished_elems:
  assumes "listPublished d limit = Inr rs" and "r \<in> set rs"
  shows "\<exists>p \<in> set (posts d). published p \<and> r = to_listing p"
proof -
  define n where "n = (case limit of None \<Rightarrow> (20::int) | Some l \<Rightarrow> l)"
  from assms(1) have "rs = map to_listing (take (nat n) (by_published_desc d))"
    by (simp add: listPublished_def n_def Let_def split: if_splits)
  with assms(2) obtain p
    where p: "p \<in> set (take (nat n) (by_published_desc d))" and rp: "r = to_listing p"
    by auto
  from p have "p \<in> set (by_published_desc d)" by (rule in_set_takeD)
  then have "p \<in> set (posts d)" "published p" by (simp_all add: set_by_published_desc)
  with rp show ?thesis by blast
qed

text \<open>
  C4. For every state of the store and every \<open>limit\<close>: \<open>listPublished\<close> returns a list
  unless \<open>limit\<close> is negative, and every element of a list it returns is the listing of
  a stored post whose \<open>published\<close> field is true.
\<close>

theorem listPublished_only_published:
  "((case limit of None \<Rightarrow> True | Some n \<Rightarrow> 0 \<le> n) \<longrightarrow>
      (\<exists>rs. listPublished d limit = Inr rs)) \<and>
   (\<forall>rs. listPublished d limit = Inr rs \<longrightarrow>
      (\<forall>r \<in> set rs. \<exists>p \<in> set (posts d). published p \<and> r = to_listing p))"
proof (intro conjI allI impI ballI)
  assume "case limit of None \<Rightarrow> True | Some n \<Rightarrow> 0 \<le> n"
  then show "\<exists>rs. listPublished d limit = Inr rs"
    by (cases limit) (simp_all add: listPublished_def)
next
  fix rs r
  assume "listPublished d limit = Inr rs" and "r \<in> set rs"
  then show "\<exists>p \<in> set (posts d). published p \<and> r = to_listing p"
    by (rule listPublished_elems)
qed

theorem listPublished_only_published_witness:
  "\<exists>r. listPublished two_posts (Some 5) = Inr [r] \<and> l_id r = 0 \<and>
       (\<exists>p \<in> set (posts two_posts). published p \<and> r = to_listing p)"
proof -
  let ?r = "\<lparr>l_id = 0, l_creationTime = 1, l_title = [0x41], l_slug = [0x61],
             l_excerpt = [], l_publishedAt = Some 100, l_createdAt = 100,
             l_tags = Some []\<rparr>"
  have v: "listPublished two_posts (Some 5) = Inr [?r]"
    by (simp add: listPublished_def by_published_desc_def two_posts_posts to_listing_def)
  from listPublished_only_published [of "Some 5" two_posts] v
  have "\<exists>p \<in> set (posts two_posts). published p \<and> ?r = to_listing p"
    by simp
  with v show ?thesis by simp
qed

section \<open>Removing a post\<close>

lemma db_get_delete_same: "db_get (db_delete i d) i = None"
  by (simp add: db_get_def db_delete_def find_None_iff)

lemma posts_delete_ids: "p \<in> set (posts (db_delete i d)) \<Longrightarrow> doc_id p \<noteq> i"
  by (simp add: db_delete_def)

lemma page_paginate_subset: "set (page (paginate xs opts)) \<subseteq> set xs"
  by (cases "cursor opts") (auto simp: paginate_def Let_def dest: in_set_takeD)

text \<open>
  C5. For every state of the store and every id \<open>i\<close> of a post in it, \<open>remove i\<close>
  completes, and in the state it leaves \<open>getById i\<close> finds nothing, \<open>getBySlug\<close>
  returns no post with id \<open>i\<close> for any slug, and no list of \<open>listPublished\<close> and no
  page of \<open>listAll\<close> holds a post with id \<open>i\<close>, whatever the limit and the pagination
  options.
\<close>

theorem remove_then_absent:
  assumes "i \<in> doc_id ` set (posts d)"
  shows "\<exists>d'. remove i d = (Inr (), d') \<and>
           getById d' i = None \<and>
           (\<forall>s p. getBySlug d' s = Some p \<longrightarrow> doc_id p \<noteq> i) \<and>
           (\<forall>limit rs. listPublished d' limit = Inr rs \<longrightarrow> i \<notin> l_id ` set rs) \<and>
           (\<forall>opts. i \<notin> doc_id ` set (page (listAll d' opts)))"
proof -
  from assms have "db_get d i \<noteq> None"
    by (auto simp: db_get_def find_None_iff)
  then have rm: "remove i d = (Inr (), db_delete i d)"
    by (auto simp: remove_def)
  have a: "getById (db_delete i d) i = None"
    by (simp add: getById_def db_get_delete_same)
  have b: "doc_id p \<noteq> i" if "getBySlug (db_delete i d) s = Some p" for s p
  proof -
    from that have "first (by_slug (db_delete i d) s) = Some p"
      by (auto simp: getBySlug_def split: option.splits if_splits)
    then have "p \<in> set (by_slug (db_delete i d) s)" by (rule first_Some_mem)
    then have "p \<in> set (posts (db_delete i d))" by (simp add: set_by_slug)
    then show ?thesis by (rule posts_delete_ids)
  qed
  have c: "i \<notin> l_id ` set rs" if "listPublished (db_delete i d) limit = Inr rs" for limit rs
  proof
    assume "i \<in> l_id ` set rs"
    then obtain r where r: "r \<in> set rs" and ri: "l_id r = i" by auto
    from listPublished_elems [OF that r]
    obtain p where "p \<in> set (posts (db_delete i d))" "r = to_listing p" by blast
    with ri posts_delete_ids [of p i d] show False by (simp add: to_listing_def)
  qed
  have e: "i \<notin> doc_id ` set (page (listAll (db_delete i d) opts))" for opts
    using page_paginate_subset [of "by_created_desc (db_delete i d)" opts]
    by (auto simp: listAll_def set_by_created_desc dest: posts_delete_ids)
  from rm a b c e show ?thesis by blast
qed

theorem remove_then_absent_witness:
  "0 \<in> doc_id ` set (posts two_posts) \<and>
   (\<exists>d'. remove 0 two_posts = (Inr (), d') \<and>
      map doc_id (posts d') = [1] \<and>
      getById d' 0 = None \<and>
      (\<forall>s p. getBySlug d' s = Some p \<longrightarrow> doc_id p \<noteq> 0) \<and>
      (\<forall>limit rs. listPublished d' limit = Inr rs \<longrightarrow> 0 \<notin> l_id ` set rs) \<and>
      (\<forall>opts. 0 \<notin> doc_id ` set (page (listAll d' opts))))"
proof -
  have h: "0 \<in> doc_id ` set (posts two_posts)"
    by (simp add: two_posts_posts)
  have v: "map doc_id (posts (snd (remove 0 two_posts))) = [1]"
    by (simp add: remove_def db_get_def db_delete_def two_posts_posts)
  from remove_then_absent [OF h] v h show ?thesis by auto
qed

section \<open>Uniqueness of slugs\<close>

lemma patchData_doc_id [simp]: "doc_id (patchData t_upd t_pub a e q) = doc_id q"
  by (simp add: patchData_def Let_def)

lemma patchData_slug:
  "slug (patchData t_upd t_pub a e q) = (case u_slug a of None \<Rightarrow> slug q | Some s \<Rightarrow> s)"
  by (simp add: patchData_def Let_def)

lemma patchData_published:
  "published (patchData t_upd t_pub a e q) =
     (case u_published a of None \<Rightarrow> published q | Some b \<Rightarrow> b)"
  by (simp add: patchData_def Let_def)

lemma patchData_publishedAt:
  "publishedAt (patchData t_upd t_pub a e q) =
     (if u_published a = Some True \<and> \<not> published e then Some t_pub else publishedAt q)"
  by (simp add: patchData_def Let_def)

text \<open>The two ways an \<open>update\<close> ends: it throws, or it patches the post it found.\<close>

lemma update_cases:
  "snd (update t_upd t_pub a d) = d \<or>
   (\<exists>e. db_get d (u_id a) = Some e \<and>
        \<not> (case u_slug a of None \<Rightarrow> False
            | Some s \<Rightarrow> s \<noteq> [] \<and> s \<noteq> slug e \<and> slugExists d s (Some (u_id a))) \<and>
        snd (update t_upd t_pub a d) = db_patch (u_id a) (patchData t_upd t_pub a e) d)"
  by (auto simp: update_def split: option.splits)

lemma ids_wf_exec: "ids_wf d \<Longrightarrow> ids_wf (exec c d)"
proof (cases c)
  case (Create ct now a)
  assume "ids_wf d"
  then show ?thesis using Create
    by (auto simp: ids_wf_def create_def db_insert_def stamp_def list_all_iff split_beta
             intro: less_SucI)
next
  case (Update t_upd t_pub a)
  assume wf: "ids_wf d"
  have "doc_id \<circ> (\<lambda>p. if doc_id p = i then patchData t_upd t_pub a e p else p) = doc_id"
    for i e
    by (auto simp: fun_eq_iff)
  then have "ids_wf (db_patch i (patchData t_upd t_pub a e) d)" for i e
    using wf by (auto simp: ids_wf_def db_patch_def list_all_iff)
  with wf update_cases [of t_upd t_pub a d] Update show ?thesis by auto
next
  case (Remove i)
  assume "ids_wf d"
  then show ?thesis using Remove
    by (auto simp: ids_wf_def remove_def db_delete_def list_all_iff distinct_map_filter
             split: option.splits)
qed

lemma find_Some_unique:
  assumes "distinct (map doc_id xs)" and "find (\<lambda>p. doc_id p = i) xs = Some e"
    and "q \<in> set xs" and "doc_id q = i"
  shows "q = e"
proof -
  from assms(2) have "e \<in> set xs" "doc_id e = i"
    by (auto simp: find_Some_iff)
  with assms(1,3,4) show ?thesis
    by (metis distinct_map inj_onD)
qed

lemma map_slug_patch_same:
  assumes "\<And>q. q \<in> set xs \<Longrightarrow> slug (g q) = slug q"
  shows "map slug (map g xs) = map slug xs"
  using assms by (induction xs) auto

lemma distinct_slug_patch_fresh:
  assumes "distinct (map slug xs)" and "distinct (map doc_id xs)" and "s \<notin> slug ` set xs"
    and "\<And>q. slug (f q) = s"
  shows "distinct (map slug (map (\<lambda>p. if doc_id p = i then f p else p) xs))"
  using assms(1,2,3)
proof (induction xs)
  case Nil
  then show ?case by simp
next
  case (Cons x xs)
  let ?g = "\<lambda>p. if doc_id p = i then f p else p"
  from Cons have ih: "distinct (map slug (map ?g xs))" by simp
  show ?case
  proof (cases "doc_id x = i")
    case True
    with Cons.prems(2) have "\<And>q. q \<in> set xs \<Longrightarrow> doc_id q \<noteq> i"
      by (force simp: image_iff)
    then have "\<And>q. q \<in> set xs \<Longrightarrow> slug (?g q) = slug q" by simp
    then have "map slug (map ?g xs) = map slug xs"
      by (rule map_slug_patch_same)
    with True have "map slug (map ?g (x # xs)) = s # map slug xs"
      by (simp add: assms(4) del: map_map)
    moreover from Cons.prems have "distinct (s # map slug xs)" by auto
    ultimately show ?thesis by (simp only:)
  next
    case False
    have "slug x \<notin> set (map slug (map ?g xs))"
    proof
      assume "slug x \<in> set (map slug (map ?g xs))"
      then obtain q where q: "q \<in> set xs" "slug x = slug (?g q)" by auto
      show False
      proof (cases "doc_id q = i")
        case True
        with q have "slug x = s" by (simp add: assms(4))
        with Cons.prems(3) show False by simp
      next
        case False
        with q have "slug x = slug q" by simp
        with q(1) Cons.prems(1) show False by auto
      qed
    qed
    with False ih show ?thesis by (simp del: map_map)
  qed
qed

text \<open>
  When \<open>slugExists d s (Some i)\<close> is false for a slug other than the one post \<open>i\<close> has,
  no post of the table has slug \<open>s\<close>.
\<close>

lemma slugExists_excl_False:
  assumes "distinct (map doc_id (posts d))" and "db_get d i = Some e" and "s \<noteq> slug e"
    and "\<not> slugExists d s (Some i)"
  shows "s \<notin> slug ` set (posts d)"
proof (cases "first (by_slug d s)")
  case None
  then have "by_slug d s = []" by (cases "by_slug d s") (simp_all add: first_def)
  then have "set (by_slug d s) = {}" by simp
  then show ?thesis unfolding set_by_slug by auto
next
  case (Some x)
  with assms(4) have xi: "doc_id x = i" by (simp add: slugExists_def split: if_splits)
  from Some have "x \<in> set (by_slug d s)" by (rule first_Some_mem)
  then have x: "x \<in> set (posts d)" "slug x = s" by (simp_all add: set_by_slug)
  from find_Some_unique [OF assms(1) assms(2) [unfolded db_get_def] x(1) xi] have "x = e" .
  with x(2) assms(3) show ?thesis by simp
qed

text \<open>
  Every call but an \<open>update\<close> to the empty slug keeps the slugs of a well-formed store
  pairwise different.
\<close>

lemma slugs_unique_exec:
  assumes wf: "ids_wf d" and su: "slugs_unique d" and ne: "\<not> empty_slug_update c"
  shows "slugs_unique (exec c d)"
proof (cases c)
  case (Create ct now a)
  show ?thesis
  proof (cases "slugExists d (c_slug a) None")
    case True
    with Create su show ?thesis by (simp add: create_def)
  next
    case False
    then have "c_slug a \<notin> slug ` set (posts d)" by (auto simp: slugExists_None_iff)
    with False Create su show ?thesis
      by (simp add: create_def slugs_unique_def db_insert_def stamp_def)
  qed
next
  case (Update t_upd t_pub a)
  from update_cases [of t_upd t_pub a d] show ?thesis
  proof (elim disjE exE conjE)
    assume "snd (update t_upd t_pub a d) = d"
    with Update su show ?thesis by simp
  next
    fix e
    assume e: "db_get d (u_id a) = Some e"
      and guard: "\<not> (case u_slug a of None \<Rightarrow> False
            | Some s \<Rightarrow> s \<noteq> [] \<and> s \<noteq> slug e \<and> slugExists d s (Some (u_id a)))"
      and d': "snd (update t_upd t_pub a d) = db_patch (u_id a) (patchData t_upd t_pub a e) d"
    let ?g = "\<lambda>p. if doc_id p = u_id a then patchData t_upd t_pub a e p else p"
    from wf have di: "distinct (map doc_id (posts d))" by (simp add: ids_wf_def)
    have "distinct (map slug (map ?g (posts d)))"
    proof (cases "u_slug a")
      case None
      then have "\<And>q. q \<in> set (posts d) \<Longrightarrow> slug (?g q) = slug q"
        by (simp add: patchData_slug)
      then have "map slug (map ?g (posts d)) = map slug (posts d)"
        by (rule map_slug_patch_same)
      with su show ?thesis by (simp only: slugs_unique_def)
    next
      case (Some s)
      with ne Update have s: "s \<noteq> []" by simp
      show ?thesis
      proof (cases "s = slug e")
        case True
        have same: "slug (?g q) = slug q" if "q \<in> set (posts d)" for q
        proof (cases "doc_id q = u_id a")
          case True
          from find_Some_unique [OF di e [unfolded db_get_def] that True] have "q = e" .
          with True \<open>s = slug e\<close> Some show ?thesis by (simp add: patchData_slug)
        next
          case False
          then show ?thesis by simp
        qed
        have "map slug (map ?g (posts d)) = map slug (posts d)"
          by (rule map_slug_patch_same) (rule same)
        with su show ?thesis by (simp only: slugs_unique_def)
      next
        case False
        with guard Some s have "\<not> slugExists d s (Some (u_id a))" by simp
        from slugExists_excl_False [OF di e False this]
        have fresh: "s \<notin> slug ` set (posts d)" .
        from su have ds: "distinct (map slug (posts d))" by (simp add: slugs_unique_def)
        show ?thesis
          by (rule distinct_slug_patch_fresh [OF ds di fresh]) (simp add: patchData_slug Some)
      qed
    qed
    with Update d' show ?thesis by (simp add: slugs_unique_def db_patch_def del: map_map)
  qed
next
  case (Remove i)
  with su show ?thesis
    by (auto simp: slugs_unique_def remove_def db_delete_def distinct_map_filter
             split: option.splits)
qed

lemma slugs_unique_run:
  assumes "ids_wf d" and "slugs_unique d" and "\<forall>c \<in> set cs. \<not> empty_slug_update c"
  shows "slugs_unique (run cs d)"
  using assms
proof (induction cs arbitrary: d)
  case Nil
  then show ?case by simp
next
  case (Cons c cs)
  from Cons.prems have "ids_wf (exec c d)" "slugs_unique (exec c d)"
    by (simp_all add: ids_wf_exec slugs_unique_exec)
  with Cons show ?case by simp
qed

text \<open>
  From the empty table, calls of \<open>create\<close>, \<open>update\<close> and \<open>remove\<close> among which no
  \<open>update\<close> passes the empty string as slug lead only to tables with pairwise different
  slugs.
\<close>

lemma slugs_unique_without_empty_slug_update:
  assumes "\<forall>c \<in> set cs. \<not> empty_slug_update c"
  shows "slugs_unique (run cs empty_db)"
  using assms by (intro slugs_unique_run) (simp_all add: ids_wf_def slugs_unique_def empty_db_def)

text \<open>
  C2. The claim is that no state reachable from the empty table holds two posts with
  the same slug. \<open>update\<close> guards its duplicate check with \<open>updates.slug &&\<close>, which is
  false for the empty string, and then writes the empty string into the post all the
  same. Two posts created under the slugs \<open>"a"\<close> and \<open>"b"\<close> and then both updated to the
  slug \<open>""\<close> are two posts (ids 0 and 1) with the same slug; the state is reachable and
  does not have pairwise different slugs.
\<close>

theorem empty_slug_update_breaks_uniqueness:
  "map slug (posts (run [Create 1 100 post_a, Create 2 200 post_b,
                         Update 300 301 (set_slug 0 []),
                         Update 400 401 (set_slug 1 [])] empty_db)) = [[], []] \<and>
   map doc_id (posts (run [Create 1 100 post_a, Create 2 200 post_b,
                           Update 300 301 (set_slug 0 []),
                           Update 400 401 (set_slug 1 [])] empty_db)) = [0, 1] \<and>
   \<not> slugs_unique (run [Create 1 100 post_a, Create 2 200 post_b,
                        Update 300 301 (set_slug 0 []),
                        Update 400 401 (set_slug 1 [])] empty_db)"
  by (simp add: eval_defs slugs_unique_def)

section \<open>The publication timestamp\<close>

lemma find_patch:
  assumes "\<And>q. doc_id (f q) = doc_id q"
  shows "find (\<lambda>p. doc_id p = j) (map (\<lambda>p. if doc_id p = i then f p else p) xs) =
           (if j = i then map_option f (find (\<lambda>p. doc_id p = i) xs)
            else find (\<lambda>p. doc_id p = j) xs)"
  by (induction xs) (auto simp: assms)

lemma db_get_patch:
  assumes "\<And>q. doc_id (f q) = doc_id q"
  shows "db_get (db_patch i f d) j =
           (if j = i then map_option f (db_get d i) else db_get d j)"
  using find_patch [of f j i "posts d", OF assms] by (simp add: db_get_def db_patch_def)

lemma find_snoc:
  "find P (xs @ [x]) =
     (case find P xs of Some y \<Rightarrow> Some y | None \<Rightarrow> if P x then Some x else None)"
  by (induction xs) auto

lemma db_get_insert_old:
  "db_get d i = Some p \<Longrightarrow> db_get (snd (db_insert ct f d)) i = Some p"
  by (simp add: db_get_def db_insert_def find_snoc)

lemma find_filter_other:
  "j \<noteq> i \<Longrightarrow>
   find (\<lambda>p. doc_id p = i) (filter (\<lambda>p. doc_id p \<noteq> j) xs) = find (\<lambda>p. doc_id p = i) xs"
  by (induction xs) auto

lemma db_get_delete_other:
  "j \<noteq> i \<Longrightarrow> db_get (db_delete j d) i = db_get d i"
  by (simp add: db_get_def db_delete_def find_filter_other)

text \<open>One call that neither unpublishes nor removes a published post leaves its timestamp.\<close>

lemma exec_keeps_publishedAt:
  assumes "keeps_published i c" and "db_get d i = Some p" and "published p"
  shows "\<exists>p'. db_get (exec c d) i = Some p' \<and> published p' \<and> publishedAt p' = publishedAt p"
proof (cases c)
  case (Create ct now a)
  show ?thesis
  proof (cases "slugExists d (c_slug a) None")
    case True
    with Create assms show ?thesis by (simp add: create_def)
  next
    case False
    with Create assms show ?thesis
      by (simp add: create_def split_beta db_get_insert_old)
  qed
next
  case (Update t_upd t_pub a)
  from update_cases [of t_upd t_pub a d] show ?thesis
  proof (elim disjE exE conjE)
    assume "snd (update t_upd t_pub a d) = d"
    with Update assms show ?thesis by simp
  next
    fix e
    assume e: "db_get d (u_id a) = Some e"
      and d': "snd (update t_upd t_pub a d) = db_patch (u_id a) (patchData t_upd t_pub a e) d"
    show ?thesis
    proof (cases "u_id a = i")
      case True
      with e assms have ep: "e = p" by simp
      from True Update assms have np: "u_published a \<noteq> Some False" by simp
      have "db_get (exec c d) i = Some (patchData t_upd t_pub a p p)"
        using Update d' ep True assms by (simp add: db_get_patch)
      moreover have "published (patchData t_upd t_pub a p p)"
        using np assms by (cases "u_published a") (auto simp: patchData_published)
      moreover have "publishedAt (patchData t_upd t_pub a p p) = publishedAt p"
        using assms by (simp add: patchData_publishedAt)
      ultimately show ?thesis by blast
    next
      case False
      then have "db_get (exec c d) i = db_get d i"
        using Update d' by (simp add: db_get_patch)
      with assms show ?thesis by simp
    qed
  qed
next
  case (Remove j)
  with assms have ji: "j \<noteq> i" by simp
  show ?thesis
  proof (cases "db_get d j")
    case None
    with Remove assms show ?thesis by (simp add: remove_def)
  next
    case (Some q)
    with Remove assms ji show ?thesis by (simp add: remove_def db_get_delete_other)
  qed
qed

lemma run_keeps_publishedAt:
  assumes "\<forall>c \<in> set cs. keeps_published i c" and "db_get d i = Some p" and "published p"
  shows "\<exists>p'. db_get (run cs d) i = Some p' \<and> published p' \<and> publishedAt p' = publishedAt p"
  using assms
proof (induction cs arbitrary: d p)
  case Nil
  then show ?case by simp
next
  case (Cons c cs)
  then have "keeps_published i c" by simp
  from exec_keeps_publishedAt [OF this Cons.prems(2,3)]
  obtain q where q: "db_get (exec c d) i = Some q" "published q" "publishedAt q = publishedAt p"
    by blast
  from Cons.prems(1) have "\<forall>c \<in> set cs. keeps_published i c" by simp
  from Cons.IH [OF this q(1,2)] q(3) show ?case by simp
qed

lemma create_publishes:
  assumes "c_published a" and "create ct now a d = (Inr i, d')"
  shows "\<exists>p. posts d' = posts d @ [p] \<and> doc_id p = i \<and> published p \<and> publishedAt p = Some now"
  using assms by (auto simp: create_def db_insert_def stamp_def split: if_splits)

lemma update_publishes:
  assumes "update t_upd t_pub a d = (Inr i, d')" and "db_get d (u_id a) = Some p"
    and "\<not> published p" and "u_published a = Some True"
  shows "\<exists>p'. db_get d' (u_id a) = Some p' \<and> published p' \<and> publishedAt p' = Some t_pub"
proof -
  from assms(1,2) have d': "d' = db_patch (u_id a) (patchData t_upd t_pub a p) d"
    by (auto simp: update_def split: if_splits)
  have "db_get d' (u_id a) = Some (patchData t_upd t_pub a p p)"
    using assms(2) by (simp add: d' db_get_patch)
  moreover have "published (patchData t_upd t_pub a p p)"
    using assms(4) by (simp add: patchData_published)
  moreover have "publishedAt (patchData t_upd t_pub a p p) = Some t_pub"
    using assms(3,4) by (simp add: patchData_publishedAt)
  ultimately show ?thesis by blast
qed

text \<open>
  The exact effect of a successful \<open>update\<close> on the timestamps: the post it names gets a
  new \<open>publishedAt\<close> when, and only when, the call passes \<open>published = true\<close> and the
  stored \<open>published\<close> field is false; every other post is left as it is.
\<close>

lemma update_publishedAt_exact:
  assumes "update t_upd t_pub a d = (Inr i, d')" and "db_get d (u_id a) = Some p"
  shows "(\<exists>p'. db_get d' (u_id a) = Some p' \<and>
            publishedAt p' =
              (if u_published a = Some True \<and> \<not> published p then Some t_pub
               else publishedAt p)) \<and>
         (\<forall>j. j \<noteq> u_id a \<longrightarrow> db_get d' j = db_get d j)"
proof -
  from assms have d': "d' = db_patch (u_id a) (patchData t_upd t_pub a p) d"
    by (auto simp: update_def split: if_splits)
  have "db_get d' (u_id a) = Some (patchData t_upd t_pub a p p)"
    using assms(2) by (simp add: d' db_get_patch)
  moreover have "\<forall>j. j \<noteq> u_id a \<longrightarrow> db_get d' j = db_get d j"
    by (simp add: d' db_get_patch)
  ultimately show ?thesis by (simp add: patchData_publishedAt)
qed

text \<open>An \<open>update\<close> that throws leaves every post, and so every timestamp, as it is.\<close>

lemma update_error_unchanged:
  "update t_upd t_pub a d = (Inl err, d') \<Longrightarrow> d' = d"
  by (auto simp: update_def split: option.splits if_splits)

text \<open>
  C3. The claim is that the publication timestamp is set exactly once: publishing sets
  \<open>publishedAt\<close> to the current time, and no later \<open>update\<close> sets it again for that
  post. The guard of \<open>update\<close> is \<open>updates.published && !existingPost.published\<close>: it
  asks whether the post is published now, not whether it has been published before,
  against the handler's own comment "If publishing for the first time, set
  publishedAt". A post published at its creation (clock reading 100), then unpublished,
  then edited as a draft, then published again by \<open>update\<close> (clock reading 501) keeps
  \<open>publishedAt = 100\<close> through the first two updates and has it set a second time, to
  501, by the third.
\<close>

theorem republish_sets_publishedAt_again:
  "map publishedAt (posts (run [Create 1 100 post_a] empty_db)) = [Some 100] \<and>
   map publishedAt (posts (run [Create 1 100 post_a,
                                Update 300 301 (set_published 0 False)] empty_db))
     = [Some 100] \<and>
   map publishedAt (posts (run [Create 1 100 post_a,
                                Update 300 301 (set_published 0 False),
                                Update 400 401 (set_slug 0 [0x63])] empty_db))
     = [Some 100] \<and>
   map publishedAt (posts (run [Create 1 100 post_a,
                                Update 300 301 (set_published 0 False),
                                Update 400 401 (set_slug 0 [0x63]),
                                Update 500 501 (set_published 0 True)] empty_db))
     = [Some 501] \<and>
   map published (posts (run [Create 1 100 post_a,
                              Update 300 301 (set_published 0 False),
                              Update 400 401 (set_slug 0 [0x63]),
                              Update 500 501 (set_published 0 True)] empty_db))
     = [True]"
  by (simp add: eval_defs)

section \<open>The shape of a generated slug\<close>

lemma set_trim: "set (trim s) \<subseteq> set s"
  by (auto simp: trim_def dest!: set_dropWhileD)

lemma hyphen_is_sep: "is_sep hyphen"
  by (simp add: is_sep_def)

text \<open>What \<open>collapse_seps\<close> returns is made of hyphens and of the input's other characters.\<close>

lemma collapse_seps_set:
  "set (collapse_seps s) \<subseteq> {c \<in> set s. \<not> is_sep c} \<union> {hyphen}"
proof (induction s rule: collapse_seps.induct)
  case 1
  then show ?case by simp
next
  case (2 c cs)
  show ?case
  proof (cases "is_sep c")
    case True
    with 2 have "set (collapse_seps (dropWhile is_sep cs))
        \<subseteq> {c \<in> set (dropWhile is_sep cs). \<not> is_sep c} \<union> {hyphen}" by simp
    moreover have "set (dropWhile is_sep cs) \<subseteq> set cs"
      by (auto dest: set_dropWhileD)
    ultimately show ?thesis using True by auto
  next
    case False
    with 2 show ?thesis by auto
  qed
qed

lemma collapse_seps_hd:
  "collapse_seps s \<noteq> [] \<Longrightarrow> hd (collapse_seps s) = hyphen \<Longrightarrow> s \<noteq> [] \<and> is_sep (hd s)"
  by (cases s) (auto simp: hyphen_is_sep split: if_splits)

text \<open>A hyphen that \<open>collapse_seps\<close> writes is never followed by another.\<close>

lemma collapse_seps_successively: "successively no_hh (collapse_seps s)"
proof (induction s rule: collapse_seps.induct)
  case 1
  then show ?case by simp
next
  case (2 c cs)
  show ?case
  proof (cases "is_sep c")
    case True
    let ?r = "dropWhile is_sep cs"
    from 2 True have ih: "successively no_hh (collapse_seps ?r)" by simp
    have "hd (collapse_seps ?r) \<noteq> hyphen" if ne: "collapse_seps ?r \<noteq> []"
    proof
      assume "hd (collapse_seps ?r) = hyphen"
      with ne have "?r \<noteq> []" "is_sep (hd ?r)" using collapse_seps_hd by blast+
      then show False using hd_dropWhile by blast
    qed
    with ih True show ?thesis by (auto simp: successively_Cons no_hh_def)
  next
    case False
    with 2 have "successively no_hh (collapse_seps cs)" by simp
    with False show ?thesis by (auto simp: successively_Cons hyphen_is_sep no_hh_def)
  qed
qed

text \<open>Stripping both ends leaves a middle part of the string, with clean ends.\<close>

lemma strip_both_decomp:
  "\<exists>a b. s = a @ rev (dropWhile P (rev (dropWhile P s))) @ b"
proof -
  let ?t = "dropWhile P s"
  have "s = takeWhile P s @ ?t" by simp
  moreover have "rev ?t = takeWhile P (rev ?t) @ dropWhile P (rev ?t)" by simp
  then have "?t = rev (dropWhile P (rev ?t)) @ rev (takeWhile P (rev ?t))"
    by (metis rev_append rev_rev_ident)
  ultimately have "s = takeWhile P s @ rev (dropWhile P (rev ?t)) @ rev (takeWhile P (rev ?t))"
    by simp
  then show ?thesis by blast
qed

lemma strip_both_ends:
  assumes "rev (dropWhile P (rev (dropWhile P s))) \<noteq> []"
  shows "\<not> P (hd (rev (dropWhile P (rev (dropWhile P s))))) \<and>
         \<not> P (last (rev (dropWhile P (rev (dropWhile P s)))))"
proof -
  let ?t = "dropWhile P s"
  let ?r = "rev (dropWhile P (rev ?t))"
  from assms have dne: "dropWhile P (rev ?t) \<noteq> []" by simp
  then have "\<not> P (hd (dropWhile P (rev ?t)))" by (rule hd_dropWhile)
  then have l: "\<not> P (last ?r)" using dne by (simp add: last_rev)
  have "rev ?t = takeWhile P (rev ?t) @ dropWhile P (rev ?t)" by simp
  then have t: "?t = ?r @ rev (takeWhile P (rev ?t))"
    by (metis rev_append rev_rev_ident)
  with assms have "hd ?t = hd ?r" by (metis hd_append2)
  moreover from t assms have "?t \<noteq> []" by (metis Nil_is_append_conv)
  then have "\<not> P (hd ?t)" by (rule hd_dropWhile)
  ultimately show ?thesis using l by simp
qed

text \<open>
  C7. For every input string, and every lower-casing whose result on it holds no letter
  \<open>A\<close> to \<open>Z\<close> (as that of \<open>String.prototype.toLowerCase\<close> does), the slug consists of
  lowercase ASCII letters, digits and hyphens only; it neither starts nor ends with a
  hyphen; and it has no two hyphens in a row.
\<close>

theorem slugify_url_safe:
  assumes lower: "\<forall>c \<in> set (toLowerCase text). \<not> is_upper c"
  shows "(\<forall>c \<in> set (slugify toLowerCase text). is_lower c \<or> is_digit c \<or> c = hyphen) \<and>
         (slugify toLowerCase text \<noteq> [] \<longrightarrow>
            hd (slugify toLowerCase text) \<noteq> hyphen \<and>
            last (slugify toLowerCase text) \<noteq> hyphen) \<and>
         (\<forall>i. Suc i < length (slugify toLowerCase text) \<longrightarrow>
            \<not> (slugify toLowerCase text ! i = hyphen \<and>
               slugify toLowerCase text ! Suc i = hyphen))"
proof -
  define s1 where "s1 = remove_other (trim (toLowerCase text))"
  define s2 where "s2 = collapse_seps s1"
  define r where "r = slugify toLowerCase text"
  have r: "r = strip_hyphens s2" by (simp add: r_def slugify_def s2_def s1_def)
  have s1: "is_word c \<or> is_space c \<or> c = hyphen" "\<not> is_upper c" if "c \<in> set s1" for c
    using that lower set_trim [of "toLowerCase text"] by (auto simp: s1_def remove_other_def)
  have s2: "is_lower c \<or> is_digit c \<or> c = hyphen" if "c \<in> set s2" for c
  proof -
    from that collapse_seps_set [of s1] have "c = hyphen \<or> (c \<in> set s1 \<and> \<not> is_sep c)"
      by (auto simp: s2_def)
    then show ?thesis using s1 [of c] by (auto simp: is_sep_def is_word_def)
  qed
  obtain a b where dec: "s2 = a @ r @ b"
    using strip_both_decomp [of s2 "\<lambda>c. c = hyphen"] by (auto simp: r strip_hyphens_def)
  have chars: "\<forall>c \<in> set r. is_lower c \<or> is_digit c \<or> c = hyphen"
    using s2 dec by auto
  have ends: "r \<noteq> [] \<longrightarrow> hd r \<noteq> hyphen \<and> last r \<noteq> hyphen"
    using strip_both_ends [of "\<lambda>c. c = hyphen" s2] by (simp add: r strip_hyphens_def)
  have "successively no_hh s2" unfolding s2_def by (rule collapse_seps_successively)
  then have "successively no_hh r" by (simp add: dec successively_append_iff)
  then have adj: "\<forall>i. Suc i < length r \<longrightarrow> \<not> (r ! i = hyphen \<and> r ! Suc i = hyphen)"
    by (simp add: successively_conv_nth no_hh_def)
  from chars ends adj show ?thesis unfolding r_def by blast
qed

theorem slugify_url_safe_witness:
  "list_all (\<lambda>c. \<not> is_upper c) (ascii_lower sample_title) \<and>
   slugify ascii_lower sample_title = [0x68, 0x69, 0x2D, 0x77, 0x2D, 0x32] \<and>
   list_all (\<lambda>c. is_lower c \<or> is_digit c \<or> c = hyphen) (slugify ascii_lower sample_title) \<and>
   hd (slugify ascii_lower sample_title) \<noteq> hyphen \<and>
   last (slugify ascii_lower sample_title) \<noteq> hyphen"
proof -
  have h: "\<forall>c \<in> set (ascii_lower sample_title). \<not> is_upper c"
    by (simp add: ascii_lower_def sample_title_def is_upper_def)
  have v: "slugify ascii_lower sample_title = [0x68, 0x69, 0x2D, 0x77, 0x2D, 0x32]"
    by (simp add: slugify_def ascii_lower_def sample_title_def trim_def remove_other_def
      strip_hyphens_def is_sep_def is_space_def is_word_def is_upper_def is_lower_def
      is_digit_def hyphen_def)
  from v have ne: "slugify ascii_lower sample_title \<noteq> []" by simp
  from slugify_url_safe [of ascii_lower sample_title] h ne v show ?thesis
    unfolding list_all_iff by blast
qed

section \<open>Later states of the store\<close>

text \<open>Every query returns stored posts only.\<close>

lemma queries_return_stored:
  "(getById d j = Some p \<longrightarrow> p \<in> set (posts d) \<and> doc_id p = j) \<and>
   (getBySlug d s = Some p \<longrightarrow> p \<in> set (posts d)) \<and>
   (listPublished d limit = Inr rs \<longrightarrow> l_id ` set rs \<subseteq> doc_id ` set (posts d)) \<and>
   set (page (listAll d opts)) \<subseteq> set (posts d)"
proof -
  have a: "p \<in> set (posts d) \<and> doc_id p = j" if "getById d j = Some p"
    using that by (auto simp: getById_def db_get_def find_Some_iff)
  have b: "p \<in> set (posts d)" if "getBySlug d s = Some p"
  proof -
    from that have "first (by_slug d s) = Some p"
      by (auto simp: getBySlug_def split: option.splits if_splits)
    then have "p \<in> set (by_slug d s)" by (rule first_Some_mem)
    then show ?thesis by (simp add: set_by_slug)
  qed
  have c: "l_id ` set rs \<subseteq> doc_id ` set (posts d)" if rs: "listPublished d limit = Inr rs"
  proof
    fix i assume "i \<in> l_id ` set rs"
    then obtain r where r: "r \<in> set rs" "l_id r = i" by auto
    from listPublished_elems [OF rs r(1)] r(2) show "i \<in> doc_id ` set (posts d)"
      by (auto simp: to_listing_def)
  qed
  have e: "set (page (listAll d opts)) \<subseteq> set (posts d)"
    using page_paginate_subset [of "by_created_desc d" opts]
    by (simp add: listAll_def set_by_created_desc)
  from a b c e show ?thesis by blast
qed

text \<open>
  An id that the counter has issued and that is not in the table never comes back: ids
  are not issued twice.
\<close>

lemma absent_id_exec:
  assumes "i < next_id d" and "i \<notin> doc_id ` set (posts d)"
  shows "i < next_id (exec c d) \<and> i \<notin> doc_id ` set (posts (exec c d))"
proof (cases c)
  case (Create ct now a)
  with assms show ?thesis
    by (auto simp: create_def db_insert_def stamp_def split_beta)
next
  case (Update t_upd t_pub a)
  from update_cases [of t_upd t_pub a d] show ?thesis
  proof (elim disjE exE conjE)
    assume "snd (update t_upd t_pub a d) = d"
    with Update assms show ?thesis by simp
  next
    fix e
    assume d': "snd (update t_upd t_pub a d) = db_patch (u_id a) (patchData t_upd t_pub a e) d"
    let ?d' = "db_patch (u_id a) (patchData t_upd t_pub a e) d"
    have "doc_id \<circ> (\<lambda>p. if doc_id p = u_id a then patchData t_upd t_pub a e p else p) = doc_id"
      by (auto simp: fun_eq_iff)
    then have "map doc_id (posts ?d') = map doc_id (posts d)"
      by (simp add: db_patch_def)
    then have img: "doc_id ` set (posts ?d') = doc_id ` set (posts d)"
      by (metis set_map)
    have nx: "next_id ?d' = next_id d" by (simp add: db_patch_def)
    from Update d' have "exec c d = ?d'" by simp
    with img nx assms show ?thesis by metis
  qed
next
  case (Remove j)
  with assms show ?thesis
    by (auto simp: remove_def db_delete_def split: option.splits)
qed

lemma absent_id_run:
  assumes "i < next_id d" and "i \<notin> doc_id ` set (posts d)"
  shows "i \<notin> doc_id ` set (posts (run cs d))"
  using assms
proof (induction cs arbitrary: d)
  case Nil
  then show ?case by simp
next
  case (Cons c cs)
  from absent_id_exec [OF Cons.prems, of c] Cons.IH [of "exec c d"] show ?case by simp
qed

lemma removed_id_stays_absent:
  assumes "ids_wf d" and "i \<in> doc_id ` set (posts d)"
  shows "i \<notin> doc_id ` set (posts (run cs (exec (Remove i) d)))"
proof -
  from assms have "i < next_id d" by (auto simp: ids_wf_def list_all_iff)
  moreover from assms(2) have "db_get d i \<noteq> None"
    by (auto simp: db_get_def find_None_iff)
  then have "exec (Remove i) d = db_delete i d" by (auto simp: remove_def)
  ultimately have "i < next_id (exec (Remove i) d)"
    "i \<notin> doc_id ` set (posts (exec (Remove i) d))"
    by (auto simp: db_delete_def)
  then show ?thesis by (rule absent_id_run)
qed

lemma ids_wf_run: "ids_wf d \<Longrightarrow> ids_wf (run cs d)"
  by (induction cs arbitrary: d) (simp_all add: ids_wf_exec)

lemma ids_wf_reachable: "ids_wf (run cs empty_db)"
  by (rule ids_wf_run) (simp add: ids_wf_def empty_db_def)

end
